theory Spec2Isabelle
  imports Main "HOL-Library.Word"
begin

section \<open>The thread pool of os_threadpool.c as an interleaving transition system\<close>

text \<open>
  The pool is shared by the worker threads running \<open>thread_loop_function\<close> and by the
  main thread, which submits tasks, joins the workers and destroys the pool. Each thread
  has a program counter; one step executes one statement (or one critical-section body)
  of the thread named by the event. The mutex is a field of the state: a lock statement
  is enabled only while the mutex is free, and nothing else in a step looks at it.

  What the model takes for granted: memory is sequentially consistent (the accesses to
  \<open>start\<close> and \<open>tp->active\<close> outside the mutex are single steps of their own); one pool
  exists at a time, since \<open>waiting_threads\<close> and \<open>start\<close> are process-wide; \<open>malloc\<close>
  and \<open>pthread_create\<close> succeed and the assertions of \<open>enqueue_task\<close> hold; the action
  of a task touches the pool only by calling \<open>enqueue_task\<close>, any number of times and on
  any tasks.
\<close>

subsection \<open>Data\<close>

text \<open>A task is identified by the address of its \<open>os_task_t\<close>.\<close>

type_synonym task = nat

datatype tid = Main | Worker nat

text \<open>Positions inside \<open>enqueue_task\<close>: lines 50, 55, 56, 57 and 58.\<close>

datatype epc = E_start | E_lock | E_add | E_signal | E_unlock

text \<open>
  Positions of a worker inside \<open>thread_loop_function\<close> and the \<open>dequeue_task\<close> it calls:
  \<^item> \<open>Loop_head\<close>: line 92, about to test \<open>tp->active == 1\<close>;
  \<^item> \<open>Deq_lock\<close>, \<open>Deq_body\<close>, \<open>Deq_unlock t\<close>: lines 71, 72-80 and 82-83 of
    \<open>dequeue_task\<close>, \<open>t\<close> being the value it returns;
  \<^item> \<open>Check_lock\<close>, \<open>Check_body\<close>, \<open>Check_unlock\<close>: lines 96, 98-104 and 105-106;
  \<^item> \<open>Cond_blocked\<close>: inside \<open>pthread_cond_wait\<close> (line 103), mutex released;
  \<^item> \<open>Cond_reacquire\<close>: woken, \<open>pthread_cond_wait\<close> taking the mutex again;
  \<^item> \<open>Run t c\<close>: line 109, inside the action of task \<open>t\<close>; \<open>c\<close> is the call of
    \<open>enqueue_task\<close> the action is in, if any;
  \<^item> \<open>Exited\<close>: line 113.
\<close>

datatype wpc =
    Loop_head
  | Deq_lock
  | Deq_body
  | Deq_unlock "task option"
  | Check_lock
  | Check_body
  | Cond_blocked
  | Cond_reacquire
  | Check_unlock
  | Run task "(epc \<times> task) option"
  | Exited

text \<open>
  The main thread (lines 257-266): submitting (\<open>process_node\<close> calling \<open>enqueue_task\<close>),
  then \<open>wait_for_completion\<close>, then \<open>destroy_threadpool\<close>.
\<close>

datatype mpc = M_run "(epc \<times> task) option" | M_joined | M_done

text \<open>
  The two process-wide variables of lines 12-13 and the fields of \<open>os_threadpool_t\<close>.
  \<open>waiting_threads\<close> and \<open>num_threads\<close> are \<open>unsigned int\<close>.
\<close>

record state =
  waiting_threads :: "32 word"
  start :: int
  queue :: "task list"
  active :: int
  num_threads :: "32 word"
  mutex :: "tid option"
  workers :: "wpc list"
  main :: mpc

subsection \<open>Creation and destruction\<close>

text \<open>A process before any pool exists: statics are zero.\<close>

definition boot :: state where
  "boot = \<lparr>waiting_threads = 0, start = 0, queue = [], active = 0, num_threads = 0,
           mutex = None, workers = [], main = M_done\<rparr>"

text \<open>
  \<open>create_threadpool\<close> (lines 125-150), from the state the process is in: every worker is
  spawned at the head of its loop. \<open>start\<close> is not assigned.
\<close>

definition create_threadpool :: "state \<Rightarrow> 32 word \<Rightarrow> state" where
  "create_threadpool s n =
     s\<lparr>queue := [], mutex := None, active := 1, waiting_threads := 0, num_threads := n,
       workers := replicate (unat n) Loop_head, main := M_run None\<rparr>"

text \<open>\<open>destroy_threadpool\<close> (lines 153-171): the queue is purged from the head.\<close>

definition destroy_threadpool :: "state \<Rightarrow> state" where
  "destroy_threadpool s = s\<lparr>active := 0, waiting_threads := 0, queue := [], main := M_done\<rparr>"

subsection \<open>Critical sections\<close>

text \<open>Line 74.\<close>

definition incr_waiting :: "state \<Rightarrow> state" where
  "incr_waiting s = s\<lparr>waiting_threads := waiting_threads s + 1\<rparr>"

text \<open>Lines 76-80.\<close>

definition take_head :: "state \<Rightarrow> task option \<times> state" where
  "take_head s =
     (if queue s \<noteq> [] \<and> active s = 1
      then (Some (hd (queue s)),
            s\<lparr>queue := tl (queue s), waiting_threads := waiting_threads s - 1\<rparr>)
      else (None, s))"

text \<open>The body of \<open>dequeue_task\<close> between lock and unlock (lines 72-80).\<close>

definition dequeue_task :: "state \<Rightarrow> task option \<times> state" where
  "dequeue_task s = take_head (incr_waiting s)"

definition setw :: "nat \<Rightarrow> wpc \<Rightarrow> state \<Rightarrow> state" where
  "setw i p s = s\<lparr>workers := (workers s)[i := p]\<rparr>"

text \<open>\<open>pthread_cond_broadcast\<close>: every blocked worker is woken.\<close>

fun wake :: "wpc \<Rightarrow> wpc" where
  "wake Cond_blocked = Cond_reacquire"
| "wake p = p"

text \<open>
  Lines 98-104, executed by worker \<open>i\<close> holding the mutex. \<open>pthread_cond_wait\<close> releases
  the mutex and blocks in one step.
\<close>

definition termination_check :: "nat \<Rightarrow> state \<Rightarrow> state" where
  "termination_check i s =
     (if waiting_threads s = num_threads s
      then setw i Check_unlock (s\<lparr>active := 0, workers := map wake (workers s)\<rparr>)
      else if queue s = [] \<and> start s = 1
      then setw i Cond_blocked (s\<lparr>mutex := None\<rparr>)
      else setw i Check_unlock s)"

text \<open>
  One statement of \<open>enqueue_task(tp, t)\<close> executed by thread \<open>c\<close>; the result carries the
  next position, \<open>None\<close> when the call returns. Line 57 is \<open>cond_signal\<close> below.
\<close>

fun enqueue_stmt :: "tid \<Rightarrow> epc \<Rightarrow> task \<Rightarrow> state \<Rightarrow> (epc option \<times> state) option" where
  "enqueue_stmt c E_start t s = Some (Some E_lock, s\<lparr>start := 1\<rparr>)"
| "enqueue_stmt c E_lock t s =
     (if mutex s = None then Some (Some E_add, s\<lparr>mutex := Some c\<rparr>) else None)"
| "enqueue_stmt c E_add t s = Some (Some E_signal, s\<lparr>queue := queue s @ [t]\<rparr>)"
| "enqueue_stmt c E_signal t s = None"
| "enqueue_stmt c E_unlock t s = Some (None, s\<lparr>mutex := None\<rparr>)"

text \<open>
  \<open>pthread_cond_signal\<close>: wakes the chosen blocked worker; with no worker blocked it does
  nothing.
\<close>

fun cond_signal :: "nat option \<Rightarrow> state \<Rightarrow> state option" where
  "cond_signal (Some j) s =
     (if j < length (workers s) \<and> workers s ! j = Cond_blocked
      then Some (setw j Cond_reacquire s) else None)"
| "cond_signal None s = (if Cond_blocked \<in> set (workers s) then None else Some s)"

subsection \<open>Steps\<close>

fun next_call :: "epc option \<Rightarrow> task \<Rightarrow> (epc \<times> task) option" where
  "next_call None t = None"
| "next_call (Some p) t = Some (p, t)"

text \<open>The next statement of worker \<open>i\<close>, which is at position \<open>p\<close>.\<close>

fun worker_stmt :: "nat \<Rightarrow> wpc \<Rightarrow> state \<Rightarrow> state option" where
  "worker_stmt i Loop_head s =
     Some (setw i (if active s = 1 then Deq_lock else Exited) s)"
| "worker_stmt i Deq_lock s =
     (if mutex s = None then Some (setw i Deq_body (s\<lparr>mutex := Some (Worker i)\<rparr>)) else None)"
| "worker_stmt i Deq_body s =
     (case dequeue_task s of (r, s') \<Rightarrow> Some (setw i (Deq_unlock r) s'))"
| "worker_stmt i (Deq_unlock r) s =
     Some (setw i (case r of None \<Rightarrow> Check_lock | Some t \<Rightarrow> Run t None) (s\<lparr>mutex := None\<rparr>))"
| "worker_stmt i Check_lock s =
     (if mutex s = None then Some (setw i Check_body (s\<lparr>mutex := Some (Worker i)\<rparr>)) else None)"
| "worker_stmt i Check_body s = Some (termination_check i s)"
| "worker_stmt i Cond_blocked s = None"
| "worker_stmt i Cond_reacquire s =
     (if mutex s = None then Some (setw i Check_unlock (s\<lparr>mutex := Some (Worker i)\<rparr>))
      else None)"
| "worker_stmt i Check_unlock s = Some (setw i Exited (s\<lparr>mutex := None\<rparr>))"
| "worker_stmt i (Run r None) s = None"
| "worker_stmt i (Run r (Some (p, t))) s =
     (case enqueue_stmt (Worker i) p t s of
        None \<Rightarrow> None
      | Some (p', s') \<Rightarrow> Some (setw i (Run r (next_call p' t)) s'))"
| "worker_stmt i Exited s = None"

text \<open>The next statement of the main thread inside \<open>enqueue_task\<close>.\<close>

fun main_stmt :: "mpc \<Rightarrow> state \<Rightarrow> state option" where
  "main_stmt (M_run (Some (p, t))) s =
     (case enqueue_stmt Main p t s of
        None \<Rightarrow> None
      | Some (p', s') \<Rightarrow> Some (s'\<lparr>main := M_run (next_call p' t)\<rparr>))"
| "main_stmt m s = None"

text \<open>The call of \<open>enqueue_task\<close> thread \<open>c\<close> is in, and its update.\<close>

fun call_of :: "tid \<Rightarrow> state \<Rightarrow> (epc \<times> task) option" where
  "call_of Main s = (case main s of M_run c \<Rightarrow> c | _ \<Rightarrow> None)"
| "call_of (Worker i) s =
     (if i < length (workers s)
      then (case workers s ! i of Run r c \<Rightarrow> c | _ \<Rightarrow> None) else None)"

fun can_call :: "tid \<Rightarrow> state \<Rightarrow> bool" where
  "can_call Main s = (main s = M_run None)"
| "can_call (Worker i) s =
     (i < length (workers s) \<and> (case workers s ! i of Run r None \<Rightarrow> True | _ \<Rightarrow> False))"

fun set_call :: "tid \<Rightarrow> (epc \<times> task) option \<Rightarrow> state \<Rightarrow> state" where
  "set_call Main c s = s\<lparr>main := M_run c\<rparr>"
| "set_call (Worker i) c s =
     (case workers s ! i of Run r _ \<Rightarrow> setw i (Run r c) s | _ \<Rightarrow> s)"

text \<open>
  Events: a thread executes its next statement; a thread that may submit (the main thread,
  or a worker inside an action) calls \<open>enqueue_task\<close> on a task; a thread executes the
  \<open>pthread_cond_signal\<close> of line 57, which wakes the chosen worker; the action of a worker
  returns and the task is destroyed (lines 109-110); a blocked worker wakes spuriously;
  \<open>wait_for_completion\<close> returns; \<open>destroy_threadpool\<close> runs.
\<close>

datatype event =
    Stmt tid
  | Call tid task
  | Signal tid "nat option"
  | Return nat
  | Spurious nat
  | Join
  | Destroy

fun step :: "event \<Rightarrow> state \<Rightarrow> state option" where
  "step (Stmt (Worker i)) s =
     (if i < length (workers s) then worker_stmt i (workers s ! i) s else None)"
| "step (Stmt Main) s = main_stmt (main s) s"
| "step (Call c t) s =
     (if can_call c s then Some (set_call c (Some (E_start, t)) s) else None)"
| "step (Signal c j) s =
     (case call_of c s of
        Some (E_signal, t) \<Rightarrow>
          (case cond_signal j s of
             None \<Rightarrow> None
           | Some s' \<Rightarrow> Some (set_call c (Some (E_unlock, t)) s'))
      | _ \<Rightarrow> None)"
| "step (Return i) s =
     (if can_call (Worker i) s then Some (setw i Loop_head s) else None)"
| "step (Spurious i) s = cond_signal (Some i) s"
| "step Join s =
     (if main s = M_run None \<and> (\<forall>p \<in> set (workers s). p = Exited)
      then Some (s\<lparr>main := M_joined\<rparr>) else None)"
| "step Destroy s = (if main s = M_joined then Some (destroy_threadpool s) else None)"

fun run :: "event list \<Rightarrow> state \<Rightarrow> state option" where
  "run [] s = Some s"
| "run (e # es) s = (case step e s of None \<Rightarrow> None | Some s' \<Rightarrow> run es s')"

subsection \<open>Observations along a run\<close>

text \<open>The thread that executes an event.\<close>

fun actor :: "event \<Rightarrow> tid" where
  "actor (Stmt c) = c"
| "actor (Call c t) = c"
| "actor (Signal c j) = c"
| "actor (Return i) = Worker i"
| "actor (Spurious i) = Worker i"
| "actor Join = Main"
| "actor Destroy = Main"

text \<open>The task appended to the queue by a step (line 56), as a list of length at most one.\<close>

fun added :: "event \<Rightarrow> state \<Rightarrow> task list" where
  "added (Stmt c) s = (case call_of c s of Some (E_add, t) \<Rightarrow> [t] | _ \<Rightarrow> [])"
| "added e s = []"

text \<open>
  The tasks a step takes out of the queue: the task \<open>dequeue_task\<close> returns (lines 77-78),
  or everything \<open>destroy_threadpool\<close> purges (lines 164-167).
\<close>

fun removed :: "event \<Rightarrow> state \<Rightarrow> task list" where
  "removed (Stmt (Worker i)) s =
     (if i < length (workers s) \<and> workers s ! i = Deq_body
      then (case fst (dequeue_task s) of None \<Rightarrow> [] | Some t \<Rightarrow> [t]) else [])"
| "removed Destroy s = (if main s = M_joined then queue s else [])"
| "removed e s = []"

text \<open>The task whose action a step starts (line 109).\<close>

fun started :: "event \<Rightarrow> state \<Rightarrow> task list" where
  "started (Stmt (Worker i)) s =
     (if i < length (workers s)
      then (case workers s ! i of Deq_unlock (Some t) \<Rightarrow> [t] | _ \<Rightarrow> []) else [])"
| "started e s = []"

text \<open>A function of the step, collected along a run.\<close>

fun collect :: "(event \<Rightarrow> state \<Rightarrow> 'a list) \<Rightarrow> event list \<Rightarrow> state \<Rightarrow> 'a list" where
  "collect f [] s = []"
| "collect f (e # es) s =
     (case step e s of None \<Rightarrow> [] | Some s' \<Rightarrow> f e s @ collect f es s')"

definition additions :: "event list \<Rightarrow> state \<Rightarrow> task list" where
  "additions = collect added"

definition removals :: "event list \<Rightarrow> state \<Rightarrow> task list" where
  "removals = collect removed"

definition executions :: "event list \<Rightarrow> state \<Rightarrow> task list" where
  "executions = collect started"

text \<open>The tasks appended (line 56) while \<open>active\<close> was not 1.\<close>

fun added_inactive :: "event \<Rightarrow> state \<Rightarrow> task list" where
  "added_inactive e s = (if active s = 1 then [] else added e s)"

definition inactive_additions :: "event list \<Rightarrow> state \<Rightarrow> task list" where
  "inactive_additions = collect added_inactive"

text \<open>The number of steps of a run at which \<open>active\<close> leaves 1, and at which it becomes 1.\<close>

fun deactivations :: "event list \<Rightarrow> state \<Rightarrow> nat" where
  "deactivations [] s = 0"
| "deactivations (e # es) s =
     (case step e s of
        None \<Rightarrow> 0
      | Some s' \<Rightarrow> (if active s = 1 \<and> active s' \<noteq> 1 then 1 else 0) + deactivations es s')"

fun activations :: "event list \<Rightarrow> state \<Rightarrow> nat" where
  "activations [] s = 0"
| "activations (e # es) s =
     (case step e s of
        None \<Rightarrow> 0
      | Some s' \<Rightarrow> (if active s \<noteq> 1 \<and> active s' = 1 then 1 else 0) + activations es s')"

text \<open>
  A run has no late submission when no step appends a task while the waiting counter
  already equals the number of workers.
\<close>

fun no_late_add :: "event list \<Rightarrow> state \<Rightarrow> bool" where
  "no_late_add [] s = True"
| "no_late_add (e # es) s =
     (case step e s of
        None \<Rightarrow> True
      | Some s' \<Rightarrow>
          \<not> (added e s \<noteq> [] \<and> waiting_threads s = num_threads s) \<and> no_late_add es s')"

subsection \<open>Invariants\<close>

text \<open>Positions of a worker whose \<open>dequeue_task\<close> has returned \<open>NULL\<close>.\<close>

fun failed :: "wpc \<Rightarrow> bool" where
  "failed (Deq_unlock None) = True"
| "failed Check_lock = True"
| "failed Check_body = True"
| "failed Cond_blocked = True"
| "failed Cond_reacquire = True"
| "failed Check_unlock = True"
| "failed Exited = True"
| "failed p = False"

text \<open>Positions after the test of line 98.\<close>

fun checked :: "wpc \<Rightarrow> bool" where
  "checked Cond_blocked = True"
| "checked Cond_reacquire = True"
| "checked Check_unlock = True"
| "checked Exited = True"
| "checked p = False"

text \<open>Positions between a lock and the matching unlock.\<close>

fun call_holds :: "(epc \<times> task) option \<Rightarrow> bool" where
  "call_holds (Some (E_add, t)) = True"
| "call_holds (Some (E_signal, t)) = True"
| "call_holds (Some (E_unlock, t)) = True"
| "call_holds c = False"

fun worker_holds :: "wpc \<Rightarrow> bool" where
  "worker_holds Deq_body = True"
| "worker_holds (Deq_unlock r) = True"
| "worker_holds Check_body = True"
| "worker_holds Check_unlock = True"
| "worker_holds (Run r c) = call_holds c"
| "worker_holds p = False"

fun holds :: "tid \<Rightarrow> state \<Rightarrow> bool" where
  "holds Main s = (case main s of M_run c \<Rightarrow> call_holds c | _ \<Rightarrow> False)"
| "holds (Worker i) s = (i < length (workers s) \<and> worker_holds (workers s ! i))"

definition mutex_inv :: "state \<Rightarrow> bool" where
  "mutex_inv s = (\<forall>c. (mutex s = Some c) = holds c s)"

definition count_inv :: "state \<Rightarrow> bool" where
  "count_inv s =
     (length (workers s) = unat (num_threads s) \<and>
      (main s \<noteq> M_done \<longrightarrow> unat (waiting_threads s) = length (filter failed (workers s))) \<and>
      (main s = M_done \<longrightarrow> waiting_threads s = 0) \<and>
      (main s = M_done \<longrightarrow> active s = 0) \<and>
      (active s = 1 \<or> active s = 0) \<and>
      (active s = 0 \<longrightarrow> (\<forall>j < length (workers s). failed (workers s ! j))) \<and>
      (workers s \<noteq> [] \<and> (\<forall>j < length (workers s). checked (workers s ! j))
         \<longrightarrow> active s = 0) \<and>
      ((\<forall>c. main s \<noteq> M_run c) \<longrightarrow> (\<forall>j < length (workers s). workers s ! j = Exited)))"

definition queue_inv :: "state \<Rightarrow> bool" where
  "queue_inv s = (waiting_threads s = num_threads s \<or> main s = M_done \<longrightarrow> queue s = [])"

text \<open>
  What one step may do to the shared fields: the worker count is fixed, \<open>active\<close> is
  kept or cleared, \<open>start\<close> is kept or set, the queue loses \<open>removed\<close> at the head and
  gains \<open>added\<close> at the tail, and a step other than \<open>destroy_threadpool\<close> that changes
  the queue, \<open>active\<close> or the waiting counter is taken between lock and unlock, while
  a step that changes \<open>start\<close> is not.
\<close>

definition effect :: "event \<Rightarrow> state \<Rightarrow> state \<Rightarrow> bool" where
  "effect e s s' =
    (num_threads s' = num_threads s \<and>
     (active s' = active s \<or> active s' = 0) \<and>
     (start s' = start s \<or> start s' = 1) \<and>
     removed e s @ queue s' = queue s @ added e s \<and>
     (e \<noteq> Destroy \<and>
      (queue s' \<noteq> queue s \<or> active s' \<noteq> active s \<or>
       waiting_threads s' \<noteq> waiting_threads s) \<longrightarrow> holds (actor e) s) \<and>
     (start s' \<noteq> start s \<longrightarrow> \<not> holds (actor e) s))"

subsection \<open>Runs used below\<close>


text \<open>
  One worker. Its \<open>dequeue_task\<close> returns \<open>NULL\<close>; the main thread then submits task 7
  (a whole call of \<open>enqueue_task\<close>); then the worker takes the mutex and executes lines
  98-106; the main thread joins.
\<close>

definition late_submission :: "event list" where
  "late_submission =
     [Stmt (Worker 0), Stmt (Worker 0), Stmt (Worker 0), Stmt (Worker 0),
      Call Main 7, Stmt Main, Stmt Main, Stmt Main, Signal Main None, Stmt Main,
      Stmt (Worker 0), Stmt (Worker 0), Stmt (Worker 0), Join]"

text \<open>
  Two workers. The main thread enters \<open>enqueue_task\<close> for task 5 and executes line 50;
  worker 0 finds the queue empty and blocks in \<open>pthread_cond_wait\<close>; the main thread
  appends the task and signals worker 0, which takes the mutex again and goes on.
\<close>

definition woken_worker :: "event list" where
  "woken_worker =
     [Call Main 5, Stmt Main,
      Stmt (Worker 0), Stmt (Worker 0), Stmt (Worker 0), Stmt (Worker 0), Stmt (Worker 0),
      Stmt (Worker 0),
      Stmt Main, Stmt Main, Signal Main (Some 0), Stmt Main,
      Stmt (Worker 0), Stmt (Worker 0)]"

text \<open>
  Two workers, nothing submitted yet. Worker 0 finds the queue empty and leaves its loop;
  the \<open>dequeue_task\<close> of worker 1 returns \<open>NULL\<close>; the main thread submits task 9 (a whole
  call of \<open>enqueue_task\<close>); worker 1 takes the mutex and executes lines 98-106; the main
  thread joins.
\<close>

definition stop_races_submission :: "event list" where
  "stop_races_submission =
     [Stmt (Worker 0), Stmt (Worker 0), Stmt (Worker 0), Stmt (Worker 0), Stmt (Worker 0),
      Stmt (Worker 0), Stmt (Worker 0),
      Stmt (Worker 1), Stmt (Worker 1), Stmt (Worker 1), Stmt (Worker 1),
      Call Main 9, Stmt Main, Stmt Main, Stmt Main, Signal Main None, Stmt Main,
      Stmt (Worker 1), Stmt (Worker 1), Stmt (Worker 1), Join]"

text \<open>
  One worker. The main thread submits task 7; the worker dequeues it, runs it, finds the
  queue empty and stops the pool; the main thread joins and destroys the pool.
\<close>

definition whole_life :: "event list" where
  "whole_life =
     [Call Main 7, Stmt Main, Stmt Main, Stmt Main, Signal Main None, Stmt Main,
      Stmt (Worker 0), Stmt (Worker 0), Stmt (Worker 0), Stmt (Worker 0), Return 0,
      Stmt (Worker 0), Stmt (Worker 0), Stmt (Worker 0), Stmt (Worker 0),
      Stmt (Worker 0), Stmt (Worker 0), Stmt (Worker 0), Join, Destroy]"

text \<open>Two workers, each up to the return of a \<open>dequeue_task\<close> that found the queue empty.\<close>

definition both_idle :: "event list" where
  "both_idle =
     [Stmt (Worker 0), Stmt (Worker 0), Stmt (Worker 0), Stmt (Worker 0),
      Stmt (Worker 1), Stmt (Worker 1), Stmt (Worker 1), Stmt (Worker 1)]"

text \<open>One worker. The main thread submits tasks 5 and 6; the worker dequeues once.\<close>

definition two_tasks :: "event list" where
  "two_tasks =
     [Call Main 5, Stmt Main, Stmt Main, Stmt Main, Signal Main None, Stmt Main,
      Call Main 6, Stmt Main, Stmt Main, Stmt Main, Signal Main None, Stmt Main,
      Stmt (Worker 0), Stmt (Worker 0), Stmt (Worker 0)]"

section \<open>Invariants of the transition system\<close>

subsection \<open>Lists and machine words\<close>

lemma filter_update_count:
  "i < length xs \<Longrightarrow>
   length (filter P (xs[i := y])) + (if P (xs ! i) then 1 else 0) =
   length (filter P xs) + (if P y then 1 else 0)"
proof (induction xs arbitrary: i)
  case Nil
  then show ?case by simp
next
  case (Cons x xs)
  show ?case
  proof (cases i)
    case 0
    then show ?thesis by simp
  next
    case (Suc k)
    with Cons.prems have "k < length xs" by simp
    from Cons.IH [OF this] Suc show ?thesis by simp
  qed
qed

lemma filter_all_nth:
  "length (filter P xs) = length xs \<Longrightarrow> j < length xs \<Longrightarrow> P (xs ! j)"
  by (metis filter_id_conv length_filter_less linorder_neq_iff nth_mem)

lemma filter_all_count:
  "(\<forall>j < length xs. P (xs ! j)) \<Longrightarrow> length (filter P xs) = length xs"
  by (simp add: all_set_conv_all_nth)

lemma filter_some_less:
  "i < length xs \<Longrightarrow> \<not> P (xs ! i) \<Longrightarrow> length (filter P xs) < length xs"
  by (meson length_filter_less nth_mem)

lemma failed_wake [simp]: "failed (wake p) = failed p"
  by (cases p) auto

lemma checked_wake: "checked p \<Longrightarrow> checked (wake p)"
  by (cases p) auto

lemma failed_o_wake [simp]: "failed \<circ> wake = failed"
  by (rule ext) simp

lemma filter_failed_wake: "length (filter failed (map wake xs)) = length (filter failed xs)"
  by (induction xs) auto


lemma word_succ_unat:
  assumes "unat (w::32 word) < unat (n::32 word)"
  shows "unat (w + 1) = unat w + 1"
proof -
  have "unat n < 2 ^ 32" using unsigned_less [of n] by simp
  with assms have "unat w + 1 < 2 ^ 32" by simp
  then show ?thesis by (simp add: unat_word_ariths)
qed

lemma count_same:
  "i < length ws \<Longrightarrow> failed p = failed (ws ! i) \<Longrightarrow>
   length (filter failed (ws[i := p])) = length (filter failed ws)"
  using filter_update_count [of i ws failed p] by (simp split: if_splits)

lemma count_more:
  "i < length ws \<Longrightarrow> \<not> failed (ws ! i) \<Longrightarrow> failed p \<Longrightarrow>
   length (filter failed (ws[i := p])) = Suc (length (filter failed ws))"
  using filter_update_count [of i ws failed p] by simp


subsection \<open>The waiting counter and the active flag\<close>

lemma count_inv_frame [simp]:
  "count_inv (s\<lparr>mutex := m\<rparr>) = count_inv s"
  "count_inv (s\<lparr>start := b\<rparr>) = count_inv s"
  "count_inv (s\<lparr>queue := q\<rparr>) = count_inv s"
  by (simp_all add: count_inv_def)

lemma all_update_back:
  assumes "i < length xs" "P y \<Longrightarrow> P (xs ! i)" "\<forall>j < length xs. P (xs[i := y] ! j)"
  shows "\<forall>j < length xs. P (xs ! j)"
proof (intro allI impI)
  fix j assume j: "j < length xs"
  with assms(3) have a: "P (xs[i := y] ! j)" by simp
  show "P (xs ! j)"
  proof (cases "j = i")
    case True
    with a assms(1) have "P y" by simp
    with assms(2) True show ?thesis by simp
  next
    case False
    with a show ?thesis by simp
  qed
qed

lemma count_inv_setw_same:
  assumes "count_inv s" "i < length (workers s)" "failed p = failed (workers s ! i)"
    "checked p \<Longrightarrow> checked (workers s ! i)" "(\<exists>c. main s = M_run c) \<or> p = Exited"
  shows "count_inv (setw i p s)"
  unfolding count_inv_def setw_def
  apply (intro conjI impI)
  subgoal using assms unfolding count_inv_def by simp
  subgoal using assms unfolding count_inv_def by (simp add: count_same)
  subgoal using assms unfolding count_inv_def by simp
  subgoal using assms unfolding count_inv_def by simp
  subgoal using assms unfolding count_inv_def by simp
  subgoal using assms unfolding count_inv_def by (auto simp: nth_list_update)
  subgoal
    using assms(1) all_update_back [of i "workers s" checked p, OF assms(2,4)]
    unfolding count_inv_def by auto
  subgoal using assms unfolding count_inv_def by (auto simp: nth_list_update)
  done

lemma count_inv_running:
  assumes "count_inv s" "i < length (workers s)" "\<not> failed (workers s ! i)"
  shows "active s = 1 \<and> (\<exists>c. main s = M_run c) \<and>
   unat (waiting_threads s) < unat (num_threads s) \<and>
   unat (waiting_threads s) = length (filter failed (workers s))"
proof -
  have ne: "workers s ! i \<noteq> Exited" using assms(3) by auto
  have a: "active s = 1" using assms unfolding count_inv_def by blast
  have m: "\<exists>c. main s = M_run c" using assms(1,2) ne unfolding count_inv_def by blast
  then have c: "unat (waiting_threads s) = length (filter failed (workers s))"
    using assms(1) unfolding count_inv_def by auto
  have "length (filter failed (workers s)) < length (workers s)"
    using filter_some_less [of i "workers s" failed] assms(2,3) by simp
  moreover have "length (workers s) = unat (num_threads s)"
    using assms(1) unfolding count_inv_def by simp
  ultimately show ?thesis using a m c by simp
qed

lemma count_inv_dequeue:
  assumes inv: "count_inv s" and i: "i < length (workers s)" and pc: "workers s ! i = Deq_body"
    and d: "dequeue_task s = (r, s')"
  shows "count_inv (setw i (Deq_unlock r) s')"
proof -
  have nf: "\<not> failed (workers s ! i)" using pc by simp
  from count_inv_running [OF inv i nf]
  have act: "active s = 1" and m: "\<exists>c. main s = M_run c"
    and lt: "unat (waiting_threads s) < unat (num_threads s)"
    and cnt: "unat (waiting_threads s) = length (filter failed (workers s))" by auto
  have suc: "unat (waiting_threads s + 1) = unat (waiting_threads s) + 1"
    by (rule word_succ_unat [OF lt])
  show ?thesis
  proof (cases "queue s = []")
    case True
    with d have r: "r = None" and s': "s' = s\<lparr>waiting_threads := waiting_threads s + 1\<rparr>"
      by (auto simp: dequeue_task_def take_head_def incr_waiting_def)
    have len: "length (workers s) = unat (num_threads s)"
      using inv unfolding count_inv_def by simp
    show ?thesis
      unfolding r s' count_inv_def setw_def
      apply (intro conjI impI)
      subgoal using len by simp
      subgoal using suc cnt i pc by (simp add: count_more)
      subgoal using m by auto
      subgoal using m by auto
      subgoal using act by simp
      subgoal using act by simp
      subgoal using i by (auto simp: nth_list_update)
      subgoal using m by auto
      done
  next
    case False
    with d act have r: "r = Some (hd (queue s))" and s': "s' = s\<lparr>queue := tl (queue s)\<rparr>"
      by (auto simp: dequeue_task_def take_head_def incr_waiting_def)
    have "count_inv (s\<lparr>queue := tl (queue s)\<rparr>)" using inv by simp
    from count_inv_setw_same [OF this, of i "Deq_unlock (Some (hd (queue s)))"] i pc m
    show ?thesis unfolding r s' by simp
  qed
qed


lemma checked_failed: "checked p \<Longrightarrow> failed p"
  by (cases p) auto

lemma count_inv_full:
  assumes inv: "count_inv s" and m: "main s \<noteq> M_done"
    and all: "\<forall>j < length (workers s). failed (workers s ! j)"
  shows "waiting_threads s = num_threads s"
proof -
  have "length (filter failed (workers s)) = length (workers s)"
    using all by (rule filter_all_count)
  with inv m have "unat (waiting_threads s) = unat (num_threads s)"
    unfolding count_inv_def by simp
  then show ?thesis by (simp add: word_unat_eq_iff)
qed

lemma count_inv_setw_checked:
  assumes inv: "count_inv s" and i: "i < length (workers s)"
    and f: "failed (workers s ! i)" and p: "failed p"
    and w: "waiting_threads s \<noteq> num_threads s" and m: "main s = M_run c"
  shows "count_inv (setw i p s)"
proof -
  have notall: "\<not> (\<forall>j < length (workers s). checked ((workers s)[i := p] ! j))"
  proof
    assume a: "\<forall>j < length (workers s). checked ((workers s)[i := p] ! j)"
    have "\<forall>j < length (workers s). failed (workers s ! j)"
    proof (intro allI impI)
      fix j assume j: "j < length (workers s)"
      show "failed (workers s ! j)"
      proof (cases "j = i")
        case True
        then show ?thesis using f by simp
      next
        case False
        with a j have "checked (workers s ! j)" by (auto simp: nth_list_update)
        then show ?thesis by (rule checked_failed)
      qed
    qed
    from count_inv_full [OF inv _ this] m w show False by simp
  qed
  have old: "length (workers s) = unat (num_threads s)"
    "unat (waiting_threads s) = length (filter failed (workers s))"
    "active s = 1 \<or> active s = 0"
    "active s = 0 \<longrightarrow> (\<forall>j < length (workers s). failed (workers s ! j))"
    using inv m unfolding count_inv_def by auto
  show ?thesis
    unfolding count_inv_def setw_def
    apply (intro conjI impI)
    subgoal using old by simp
    subgoal using old i f p by (simp add: count_same)
    subgoal using m by simp
    subgoal using m by simp
    subgoal using old by simp
    subgoal using old i p by (simp add: nth_list_update)
    subgoal using notall by simp
    subgoal using m by simp
    done
qed

lemma count_inv_check:
  assumes inv: "count_inv s" and i: "i < length (workers s)"
    and pc: "workers s ! i = Check_body"
  shows "count_inv (termination_check i s)"
proof -
  have m: "\<exists>c. main s = M_run c" using inv i pc unfolding count_inv_def by auto
  then obtain c where mc: "main s = M_run c" ..
  show ?thesis
  proof (cases "waiting_threads s = num_threads s")
    case True
    have len: "length (workers s) = unat (num_threads s)"
      and cnt: "unat (waiting_threads s) = length (filter failed (workers s))"
      using inv mc unfolding count_inv_def by auto
    from True len cnt have "length (filter failed (workers s)) = length (workers s)" by simp
    then have all: "\<And>j. j < length (workers s) \<Longrightarrow> failed (workers s ! j)"
      by (rule filter_all_nth)
    have "length (filter failed ((map wake (workers s))[i := Check_unlock])) =
          length (filter failed (workers s))"
      using i pc by (simp add: count_same filter_failed_wake)
    then show ?thesis
      using True inv i mc all unfolding termination_check_def count_inv_def setw_def
      by (simp add: nth_list_update)
  next
    case False
    have "count_inv (s\<lparr>mutex := None\<rparr>)" using inv by simp
    from count_inv_setw_checked [OF this, of i Cond_blocked c]
      count_inv_setw_checked [OF inv, of i Check_unlock c] i pc mc False
    show ?thesis unfolding termination_check_def by simp
  qed
qed

lemma count_inv_enqueue:
  "enqueue_stmt c p t s = Some (p', s') \<Longrightarrow> count_inv s' = count_inv s"
  by (cases p) (auto split: if_splits)

lemma count_inv_worker:
  assumes inv: "count_inv s" and i: "i < length (workers s)"
    and st: "worker_stmt i (workers s ! i) s = Some s'"
  shows "count_inv s'"
proof -
  have m: "workers s ! i \<noteq> Exited \<Longrightarrow> \<exists>c. main s = M_run c"
    using inv i unfolding count_inv_def by auto
  show ?thesis
  proof (cases "workers s ! i")
    case Loop_head
    then have "\<not> failed (workers s ! i)" by simp
    from count_inv_running [OF inv i this] have "active s = 1" by simp
    with st Loop_head count_inv_setw_same [OF inv i, of Deq_lock] m
    show ?thesis by auto
  next
    case Deq_lock
    have "count_inv (s\<lparr>mutex := Some (Worker i)\<rparr>)" using inv by simp
    from count_inv_setw_same [OF this, of i Deq_body] st Deq_lock i m
    show ?thesis by (auto split: if_splits)
  next
    case Deq_body
    with st count_inv_dequeue [OF inv i] show ?thesis by (auto split: prod.splits)
  next
    case (Deq_unlock r)
    have "count_inv (s\<lparr>mutex := None\<rparr>)" using inv by simp
    from count_inv_setw_same [OF this, of i "case r of None \<Rightarrow> Check_lock | Some t \<Rightarrow> Run t None"]
      st Deq_unlock i m
    show ?thesis by (cases r) auto
  next
    case Check_lock
    have "count_inv (s\<lparr>mutex := Some (Worker i)\<rparr>)" using inv by simp
    from count_inv_setw_same [OF this, of i Check_body] st Check_lock i m
    show ?thesis by (auto split: if_splits)
  next
    case Check_body
    with st count_inv_check [OF inv i] show ?thesis by simp
  next
    case Cond_blocked
    with st show ?thesis by simp
  next
    case Cond_reacquire
    have "count_inv (s\<lparr>mutex := Some (Worker i)\<rparr>)" using inv by simp
    from count_inv_setw_same [OF this, of i Check_unlock] st Cond_reacquire i m
    show ?thesis by (auto split: if_splits)
  next
    case Check_unlock
    have "count_inv (s\<lparr>mutex := None\<rparr>)" using inv by simp
    from count_inv_setw_same [OF this, of i Exited] st Check_unlock i
    show ?thesis by auto
  next
    case (Run r c)
    show ?thesis
    proof (cases c)
      case None
      with st Run show ?thesis by simp
    next
      case (Some pt)
      obtain p t where pt: "pt = (p, t)" by (cases pt)
      from st Run Some pt obtain p' s1 where
        e: "enqueue_stmt (Worker i) p t s = Some (p', s1)" and
        s': "s' = setw i (Run r (next_call p' t)) s1"
        by (auto split: option.splits)
      from e have ws: "workers s1 = workers s" and ms: "main s1 = main s"
        by (cases p; auto split: if_splits)+
      from count_inv_enqueue [OF e] inv have "count_inv s1" by simp
      from count_inv_setw_same [OF this, of i "Run r (next_call p' t)"] i Run m ws ms
      show ?thesis unfolding s' by simp
    qed
  next
    case Exited
    with st show ?thesis by simp
  qed
qed


lemma count_inv_main_run:
  "count_inv s \<Longrightarrow> main s = M_run c \<Longrightarrow> count_inv (s\<lparr>main := M_run c'\<rparr>)"
  unfolding count_inv_def by simp

lemma count_inv_set_call:
  assumes "count_inv s" "can_call c s \<or> call_of c s \<noteq> None"
  shows "count_inv (set_call c y s)"
proof (cases c)
  case Main
  with assms(2) obtain x where "main s = M_run x" by (cases "main s") auto
  from count_inv_main_run [OF assms(1) this] Main show ?thesis by simp
next
  case (Worker i)
  with assms(2) have i: "i < length (workers s)" by (auto split: if_splits)
  from Worker assms(2) i obtain r x where r: "workers s ! i = Run r x"
    by (cases "workers s ! i") auto
  then have "workers s ! i \<noteq> Exited" by simp
  with assms(1) i have "\<exists>c. main s = M_run c" unfolding count_inv_def by auto
  with count_inv_setw_same [OF assms(1) i, of "Run r y"] r Worker
  show ?thesis by simp
qed

lemma count_inv_cond_signal:
  assumes "count_inv s" "cond_signal j s = Some s'"
  shows "count_inv s'"
proof (cases j)
  case None
  with assms show ?thesis by (simp split: if_splits)
next
  case (Some k)
  with assms(2) have k: "k < length (workers s)" and b: "workers s ! k = Cond_blocked"
    and s': "s' = setw k Cond_reacquire s" by (auto split: if_splits)
  from b have "workers s ! k \<noteq> Exited" by simp
  with assms(1) k have "\<exists>c. main s = M_run c" unfolding count_inv_def by auto
  with count_inv_setw_same [OF assms(1) k, of Cond_reacquire] b s'
  show ?thesis by simp
qed

lemma cond_signal_frame:
  "cond_signal j s = Some s' \<Longrightarrow>
   main s' = main s \<and> length (workers s') = length (workers s) \<and>
   queue s' = queue s \<and> active s' = active s \<and> start s' = start s \<and>
   waiting_threads s' = waiting_threads s \<and> num_threads s' = num_threads s \<and>
   mutex s' = mutex s"
  by (cases j) (auto simp: setw_def split: if_splits)

lemma cond_signal_call_of:
  "cond_signal j s = Some s' \<Longrightarrow> call_of c s = Some x \<Longrightarrow> call_of c s' = Some x"
  by (cases j; cases c) (auto simp: setw_def nth_list_update split: if_splits wpc.splits)

lemma count_inv_join:
  "count_inv s \<Longrightarrow> \<forall>p \<in> set (workers s). p = Exited \<Longrightarrow> main s = M_run None \<Longrightarrow>
   count_inv (s\<lparr>main := M_joined\<rparr>)"
  unfolding count_inv_def by simp

lemma count_inv_destroy:
  assumes "count_inv s" "main s = M_joined"
  shows "count_inv (destroy_threadpool s)"
proof -
  from assms have "\<forall>j < length (workers s). workers s ! j = Exited"
    unfolding count_inv_def by simp
  with assms show ?thesis unfolding count_inv_def destroy_threadpool_def by simp
qed

lemma count_inv_step:
  assumes inv: "count_inv s" and st: "step e s = Some s'"
  shows "count_inv s'"
proof (cases e)
  case (Stmt c)
  show ?thesis
  proof (cases c)
    case Main
    with st Stmt obtain p t p' s1 where m: "main s = M_run (Some (p, t))"
      and e: "enqueue_stmt Main p t s = Some (p', s1)"
      and s': "s' = s1\<lparr>main := M_run (next_call p' t)\<rparr>"
      by (cases "(main s, s)" rule: main_stmt.cases) (auto split: option.splits)
    from e have ms: "main s1 = main s" by (cases p) (auto split: if_splits)
    from count_inv_enqueue [OF e] inv have "count_inv s1" by simp
    from count_inv_main_run [OF this] ms m show ?thesis unfolding s' by simp
  next
    case (Worker i)
    with st Stmt count_inv_worker [OF inv, of i s'] show ?thesis
      by (simp split: if_splits)
  qed
next
  case (Call c t)
  with st count_inv_set_call [OF inv, of c] show ?thesis by (auto split: if_splits)
next
  case (Signal c j)
  with st obtain t s1 where c: "call_of c s = Some (E_signal, t)"
    and sg: "cond_signal j s = Some s1" and s': "s' = set_call c (Some (E_unlock, t)) s1"
    by (auto split: option.splits epc.splits)
  from count_inv_cond_signal [OF inv sg] have i1: "count_inv s1" .
  from cond_signal_call_of [OF sg c] have "call_of c s1 \<noteq> None" by simp
  with count_inv_set_call [OF i1, of c] show ?thesis unfolding s' by simp
next
  case (Return i)
  with st have c: "can_call (Worker i) s" and s': "s' = setw i Loop_head s"
    by (auto split: if_splits)
  then have i: "i < length (workers s)" by simp
  from c i obtain r where r: "workers s ! i = Run r None"
    by (cases "workers s ! i") (auto split: option.splits)
  then have "workers s ! i \<noteq> Exited" by simp
  with inv i have "\<exists>c. main s = M_run c" unfolding count_inv_def by auto
  with count_inv_setw_same [OF inv i, of Loop_head] r s'
  show ?thesis by simp
next
  case (Spurious i)
  with st count_inv_cond_signal [OF inv, of "Some i" s'] show ?thesis by simp
next
  case Join
  with st count_inv_join [OF inv] show ?thesis by (auto split: if_splits)
next
  case Destroy
  with st count_inv_destroy [OF inv] show ?thesis by (auto split: if_splits)
qed

lemma count_inv_create: "count_inv (create_threadpool s n)"
  unfolding count_inv_def create_threadpool_def by auto

lemma count_inv_run:
  "run es s = Some s' \<Longrightarrow> count_inv s \<Longrightarrow> count_inv s'"
proof (induction es arbitrary: s)
  case Nil
  then show ?case by simp
next
  case (Cons e es)
  then show ?case by (auto split: option.splits dest: count_inv_step)
qed

subsection \<open>The effect of one step\<close>

lemma enqueue_stmt_effect:
  "enqueue_stmt c p t s = Some (p', s') \<Longrightarrow>
   num_threads s' = num_threads s \<and> waiting_threads s' = waiting_threads s \<and>
   active s' = active s \<and> workers s' = workers s \<and> main s' = main s \<and>
   queue s' = queue s @ (if p = E_add then [t] else []) \<and>
   (start s' = start s \<or> p = E_start)"
  by (cases p) (auto split: if_splits)

lemma termination_check_effect:
  "num_threads (termination_check i s) = num_threads s \<and>
   waiting_threads (termination_check i s) = waiting_threads s \<and>
   queue (termination_check i s) = queue s \<and> main (termination_check i s) = main s \<and>
   start (termination_check i s) = start s \<and>
   (active (termination_check i s) = active s \<or> active (termination_check i s) = 0)"
  by (simp add: termination_check_def setw_def)

lemma dequeue_task_effect:
  "dequeue_task s = (r, s') \<Longrightarrow>
   num_threads s' = num_threads s \<and> active s' = active s \<and> main s' = main s \<and>
   start s' = start s \<and> workers s' = workers s \<and> mutex s' = mutex s \<and>
   (case r of None \<Rightarrow> [] | Some t \<Rightarrow> [t]) @ queue s' = queue s"
  by (auto simp: dequeue_task_def take_head_def incr_waiting_def split: if_splits)


lemma effect_worker:
  assumes st: "worker_stmt i p s = Some s'" and i: "i < length (workers s)"
    and p: "workers s ! i = p"
  shows "effect (Stmt (Worker i)) s s'"
proof (cases "(i, p, s)" rule: worker_stmt.cases)
  case (3 i' s0)
  with st i p show ?thesis
    unfolding effect_def
    by (auto simp: setw_def split: prod.splits option.splits dest: dequeue_task_effect)
next
  case (6 i' s0)
  with st i p termination_check_effect [of i s] show ?thesis
    unfolding effect_def by auto
next
  case (11 i' r q t s0)
  with st i p show ?thesis
    unfolding effect_def
    by (cases q) (auto simp: setw_def split: option.splits if_splits)
qed (use st i p in \<open>auto simp: effect_def setw_def split: if_splits\<close>)


lemma effect_main:
  assumes st: "main_stmt (main s) s = Some s'"
  shows "effect (Stmt Main) s s'"
proof -
  from st obtain p t p' s1 where m: "main s = M_run (Some (p, t))"
    and e: "enqueue_stmt Main p t s = Some (p', s1)"
    and s': "s' = s1\<lparr>main := M_run (next_call p' t)\<rparr>"
    by (cases "(main s, s)" rule: main_stmt.cases) (auto split: option.splits)
  from e m show ?thesis unfolding s' effect_def
    by (cases p) (auto split: if_splits)
qed

lemma set_call_shared:
  "queue (set_call c x s) = queue s \<and> active (set_call c x s) = active s \<and>
   start (set_call c x s) = start s \<and> num_threads (set_call c x s) = num_threads s \<and>
   waiting_threads (set_call c x s) = waiting_threads s \<and> mutex (set_call c x s) = mutex s"
  by (cases c) (auto simp: setw_def split: wpc.splits)

lemma effect_step:
  assumes st: "step e s = Some s'"
  shows "effect e s s'"
proof (cases e)
  case (Stmt c)
  show ?thesis
  proof (cases c)
    case Main
    with st Stmt effect_main [of s s'] show ?thesis by simp
  next
    case (Worker i)
    with st Stmt effect_worker [of i "workers s ! i" s s'] show ?thesis
      by (simp split: if_splits)
  qed
next
  case (Call c t)
  with st show ?thesis
    by (auto simp: effect_def set_call_shared split: if_splits)
next
  case (Signal c j)
  with st obtain t s1 where sg: "cond_signal j s = Some s1"
    and s': "s' = set_call c (Some (E_unlock, t)) s1"
    by (auto split: option.splits epc.splits)
  from cond_signal_frame [OF sg] Signal show ?thesis
    unfolding s' effect_def by (simp add: set_call_shared)
next
  case (Return i)
  with st show ?thesis by (auto simp: effect_def setw_def split: if_splits)
next
  case (Spurious i)
  with st cond_signal_frame [of "Some i" s s'] show ?thesis
    by (simp add: effect_def)
next
  case Join
  with st show ?thesis by (auto simp: effect_def split: if_splits)
next
  case Destroy
  with st show ?thesis
    by (auto simp: effect_def destroy_threadpool_def split: if_splits)
qed

subsection \<open>The mutex\<close>

lemma worker_holds_wake [simp]: "worker_holds (wake p) = worker_holds p"
  by (cases p) auto

lemma holds_frame [simp]:
  "holds c (s\<lparr>mutex := m\<rparr>) = holds c s"
  "holds c (s\<lparr>start := b\<rparr>) = holds c s"
  "holds c (s\<lparr>queue := q\<rparr>) = holds c s"
  "holds c (s\<lparr>active := a\<rparr>) = holds c s"
  "holds c (s\<lparr>waiting_threads := w\<rparr>) = holds c s"
  by (cases c, simp, simp)+

lemma holds_setw:
  "i < length (workers s) \<Longrightarrow>
   holds c (setw i p s) = (if c = Worker i then worker_holds p else holds c s)"
  by (cases c) (auto simp: setw_def nth_list_update)

lemma holds_main:
  "holds c (s\<lparr>main := m\<rparr>) =
   (if c = Main then (case m of M_run x \<Rightarrow> call_holds x | _ \<Rightarrow> False) else holds c s)"
  by (cases c) auto

lemma holds_wake: "holds c (s\<lparr>workers := map wake (workers s)\<rparr>) = holds c s"
  by (cases c) auto

lemma mutex_inv_frame [simp]:
  "mutex_inv (s\<lparr>start := b\<rparr>) = mutex_inv s"
  "mutex_inv (s\<lparr>queue := q\<rparr>) = mutex_inv s"
  "mutex_inv (s\<lparr>active := a\<rparr>) = mutex_inv s"
  "mutex_inv (s\<lparr>waiting_threads := w\<rparr>) = mutex_inv s"
  by (simp_all add: mutex_inv_def)


lemma setw_fields [simp]:
  "mutex (setw i p s) = mutex s" "main (setw i p s) = main s"
  "length (workers (setw i p s)) = length (workers s)"
  by (simp_all add: setw_def)

lemma setw_nth [simp]:
  "workers (setw i p s) ! j = (if j = i \<and> i < length (workers s) then p else workers s ! j)"
  by (cases "i < length (workers s)") (auto simp: setw_def nth_list_update list_update_beyond)

lemma mutex_inv_move:
  assumes "mutex_inv s" "i < length (workers s)" "worker_holds p = worker_holds (workers s ! i)"
  shows "mutex_inv (setw i p s)"
  unfolding mutex_inv_def
proof
  fix c
  show "(mutex (setw i p s) = Some c) = holds c (setw i p s)"
    using assms unfolding mutex_inv_def by (cases "c = Worker i") (simp_all add: holds_setw)
qed

lemma mutex_inv_lock:
  assumes "mutex_inv s" "i < length (workers s)" "mutex s = None" "worker_holds p"
  shows "mutex_inv (setw i p (s\<lparr>mutex := Some (Worker i)\<rparr>))"
  unfolding mutex_inv_def
proof
  fix c
  from assms(1,3) have "\<not> holds c s" unfolding mutex_inv_def by (metis option.distinct(1))
  then show "(mutex (setw i p (s\<lparr>mutex := Some (Worker i)\<rparr>)) = Some c) =
        holds c (setw i p (s\<lparr>mutex := Some (Worker i)\<rparr>))"
    using assms(2,4) by (cases "c = Worker i") (auto simp add: holds_setw)
qed

lemma mutex_inv_unlock:
  assumes "mutex_inv s" "i < length (workers s)" "worker_holds (workers s ! i)"
    "\<not> worker_holds p"
  shows "mutex_inv (setw i p (s\<lparr>mutex := None\<rparr>))"
  unfolding mutex_inv_def
proof
  fix c
  from assms have m: "mutex s = Some (Worker i)" unfolding mutex_inv_def by simp
  with assms(1) have "holds c s = (c = Worker i)" unfolding mutex_inv_def by (metis option.inject)
  then show "(mutex (setw i p (s\<lparr>mutex := None\<rparr>)) = Some c) =
        holds c (setw i p (s\<lparr>mutex := None\<rparr>))"
    using assms(2,4) by (cases "c = Worker i") (auto simp add: holds_setw)
qed


lemma mutex_inv_cong:
  "mutex s' = mutex s \<Longrightarrow> workers s' = workers s \<Longrightarrow> main s' = main s \<Longrightarrow>
   mutex_inv s' = mutex_inv s"
proof -
  assume a: "mutex s' = mutex s" "workers s' = workers s" "main s' = main s"
  have "\<And>c. holds c s' = holds c s"
  proof -
    fix c show "holds c s' = holds c s" using a by (cases c) simp_all
  qed
  with a show ?thesis by (simp add: mutex_inv_def)
qed

lemma mutex_inv_main_move:
  assumes "mutex_inv s" "holds Main (s\<lparr>main := m\<rparr>) = holds Main s"
  shows "mutex_inv (s\<lparr>main := m\<rparr>)"
  unfolding mutex_inv_def
proof
  fix c
  show "(mutex (s\<lparr>main := m\<rparr>) = Some c) = holds c (s\<lparr>main := m\<rparr>)"
    using assms unfolding mutex_inv_def by (cases c) simp_all
qed

lemma mutex_inv_main_lock:
  assumes "mutex_inv s" "mutex s = None" "call_holds x"
  shows "mutex_inv (s\<lparr>mutex := Some Main, main := M_run x\<rparr>)"
  unfolding mutex_inv_def
proof
  fix c
  from assms(1,2) have "\<not> holds c s" unfolding mutex_inv_def by (metis option.distinct(1))
  then show "(mutex (s\<lparr>mutex := Some Main, main := M_run x\<rparr>) = Some c) =
        holds c (s\<lparr>mutex := Some Main, main := M_run x\<rparr>)"
    using assms(3) by (cases c) auto
qed

lemma mutex_inv_main_unlock:
  assumes "mutex_inv s" "holds Main s" "\<not> call_holds x"
  shows "mutex_inv (s\<lparr>mutex := None, main := M_run x\<rparr>)"
  unfolding mutex_inv_def
proof
  fix c
  from assms have m: "mutex s = Some Main" unfolding mutex_inv_def by simp
  with assms(1) have "holds c s = (c = Main)" unfolding mutex_inv_def by (metis option.inject)
  then show "(mutex (s\<lparr>mutex := None, main := M_run x\<rparr>) = Some c) =
        holds c (s\<lparr>mutex := None, main := M_run x\<rparr>)"
    using assms(3) by (cases c) auto
qed

lemma mutex_inv_worker:
  assumes inv: "mutex_inv s" and st: "worker_stmt i p s = Some s'"
    and i: "i < length (workers s)" and p: "workers s ! i = p"
  shows "mutex_inv s'"
proof (cases "(i, p, s)" rule: worker_stmt.cases)
  case (1 i' s0)
  with st i p mutex_inv_move [OF inv i, of "if active s = 1 then Deq_lock else Exited"]
  show ?thesis by auto
next
  case (2 i' s0)
  with st i p mutex_inv_lock [OF inv i, of Deq_body] show ?thesis
    by (auto split: if_splits)
next
  case (3 i' s0)
  obtain r s1 where d: "dequeue_task s = (r, s1)" by (cases "dequeue_task s")
  from dequeue_task_effect [OF d] have "mutex_inv s1 = mutex_inv s"
    by (intro mutex_inv_cong) simp_all
  with inv have i1: "mutex_inv s1" by simp
  from dequeue_task_effect [OF d] have w: "workers s1 = workers s" by simp
  from mutex_inv_move [OF i1, of i "Deq_unlock r"] w i p 3 st d
  show ?thesis by simp
next
  case (4 i' r s0)
  with st i p mutex_inv_unlock [OF inv i, of "case r of None \<Rightarrow> Check_lock | Some t \<Rightarrow> Run t None"]
  show ?thesis by (cases r) auto
next
  case (5 i' s0)
  with st i p mutex_inv_lock [OF inv i, of Check_body] show ?thesis
    by (auto split: if_splits)
next
  case (6 i' s0)
  let ?s1 = "s\<lparr>active := 0, workers := map wake (workers s)\<rparr>"
  have "\<And>c. holds c ?s1 = holds c s"
  proof -
    fix c show "holds c ?s1 = holds c s" by (cases c) auto
  qed
  with inv have i1: "mutex_inv ?s1" by (simp add: mutex_inv_def)
  from mutex_inv_move [OF i1, of i Check_unlock] mutex_inv_move [OF inv i, of Check_unlock]
    mutex_inv_unlock [OF inv i, of Cond_blocked] 6 st i p
  show ?thesis by (auto simp: termination_check_def)
next
  case (7 i' s0)
  with st show ?thesis by simp
next
  case (8 i' s0)
  with st i p mutex_inv_lock [OF inv i, of Check_unlock] show ?thesis
    by (auto split: if_splits)
next
  case (9 i' s0)
  with st i p mutex_inv_unlock [OF inv i, of Exited] show ?thesis by auto
next
  case (10 i' r s0)
  with st show ?thesis by simp
next
  case (11 i' r q t s0)
  show ?thesis
  proof (cases q)
    case E_start
    have "mutex_inv (s\<lparr>start := 1\<rparr>)" using inv by simp
    from mutex_inv_move [OF this, of i "Run r (Some (E_lock, t))"] 11 E_start st i p
    show ?thesis by simp
  next
    case E_lock
    with 11 st i p mutex_inv_lock [OF inv i, of "Run r (Some (E_add, t))"]
    show ?thesis by (auto split: if_splits)
  next
    case E_add
    have "mutex_inv (s\<lparr>queue := queue s @ [t]\<rparr>)" using inv by simp
    from mutex_inv_move [OF this, of i "Run r (Some (E_signal, t))"] 11 E_add st i p
    show ?thesis by simp
  next
    case E_signal
    with 11 st show ?thesis by simp
  next
    case E_unlock
    with 11 st i p mutex_inv_unlock [OF inv i, of "Run r None"]
    show ?thesis by auto
  qed
next
  case (12 i' s0)
  with st show ?thesis by simp
qed


lemma mutex_inv_main:
  assumes inv: "mutex_inv s" and st: "main_stmt (main s) s = Some s'"
  shows "mutex_inv s'"
proof -
  from st obtain p t p' s1 where m: "main s = M_run (Some (p, t))"
    and e: "enqueue_stmt Main p t s = Some (p', s1)"
    and s': "s' = s1\<lparr>main := M_run (next_call p' t)\<rparr>"
    by (cases "(main s, s)" rule: main_stmt.cases) (auto split: option.splits)
  show ?thesis
  proof (cases p)
    case E_start
    have "mutex_inv (s\<lparr>start := 1\<rparr>)" using inv by simp
    from mutex_inv_main_move [OF this, of "M_run (Some (E_lock, t))"] E_start e m
    show ?thesis unfolding s' by auto
  next
    case E_lock
    with e m mutex_inv_main_lock [OF inv, of "Some (E_add, t)"]
    show ?thesis unfolding s' by (auto split: if_splits)
  next
    case E_add
    have "mutex_inv (s\<lparr>queue := queue s @ [t]\<rparr>)" using inv by simp
    from mutex_inv_main_move [OF this, of "M_run (Some (E_signal, t))"] E_add e m
    show ?thesis unfolding s' by auto
  next
    case E_signal
    with e show ?thesis by simp
  next
    case E_unlock
    with e m mutex_inv_main_unlock [OF inv, of None]
    show ?thesis unfolding s' by auto
  qed
qed

lemma mutex_inv_set_call:
  assumes inv: "mutex_inv s"
    and c: "(can_call c s \<and> \<not> call_holds x) \<or>
            (\<exists>y. call_of c s = Some y \<and> call_holds (Some y) = call_holds x)"
  shows "mutex_inv (set_call c x s)"
proof (cases c)
  case Main
  with c have "holds Main (s\<lparr>main := M_run x\<rparr>) = holds Main s"
    by (cases "main s") auto
  from mutex_inv_main_move [OF inv this] Main show ?thesis by simp
next
  case (Worker i)
  with c have i: "i < length (workers s)" by (auto split: if_splits)
  from Worker c i obtain r z where r: "workers s ! i = Run r z"
    by (cases "workers s ! i") auto
  with Worker c i have "worker_holds (Run r x) = worker_holds (workers s ! i)"
    by (auto split: option.splits)
  from mutex_inv_move [OF inv i this] Worker r show ?thesis by simp
qed

lemma mutex_inv_cond_signal:
  assumes "mutex_inv s" "cond_signal j s = Some s'"
  shows "mutex_inv s'"
proof (cases j)
  case None
  with assms show ?thesis by (simp split: if_splits)
next
  case (Some k)
  with assms(2) have k: "k < length (workers s)" and b: "workers s ! k = Cond_blocked"
    and s': "s' = setw k Cond_reacquire s" by (auto split: if_splits)
  from mutex_inv_move [OF assms(1) k, of Cond_reacquire] b s' show ?thesis by simp
qed

lemma mutex_inv_step:
  assumes inv: "mutex_inv s" and st: "step e s = Some s'"
  shows "mutex_inv s'"
proof (cases e)
  case (Stmt c)
  show ?thesis
  proof (cases c)
    case Main
    with st Stmt mutex_inv_main [OF inv, of s'] show ?thesis by simp
  next
    case (Worker i)
    with st Stmt mutex_inv_worker [OF inv, of i "workers s ! i" s'] show ?thesis
      by (simp split: if_splits)
  qed
next
  case (Call c t)
  with st mutex_inv_set_call [OF inv, of c "Some (E_start, t)"] show ?thesis
    by (auto split: if_splits)
next
  case (Signal c j)
  with st obtain t s1 where c: "call_of c s = Some (E_signal, t)"
    and sg: "cond_signal j s = Some s1" and s': "s' = set_call c (Some (E_unlock, t)) s1"
    by (auto split: option.splits epc.splits)
  from mutex_inv_cond_signal [OF inv sg] have i1: "mutex_inv s1" .
  from cond_signal_call_of [OF sg c] have "call_of c s1 = Some (E_signal, t)" .
  with mutex_inv_set_call [OF i1, of c "Some (E_unlock, t)"] show ?thesis
    unfolding s' by simp
next
  case (Return i)
  with st have c: "can_call (Worker i) s" and s': "s' = setw i Loop_head s"
    by (auto split: if_splits)
  then have i: "i < length (workers s)" by simp
  from c i obtain r where r: "workers s ! i = Run r None"
    by (cases "workers s ! i") (auto split: option.splits)
  from mutex_inv_move [OF inv i, of Loop_head] r s' show ?thesis by simp
next
  case (Spurious i)
  with st mutex_inv_cond_signal [OF inv, of "Some i" s'] show ?thesis by simp
next
  case Join
  with st mutex_inv_main_move [OF inv, of M_joined] show ?thesis
    by (auto split: if_splits)
next
  case Destroy
  with st have m: "main s = M_joined" and s': "s' = destroy_threadpool s"
    by (auto split: if_splits)
  have "mutex_inv (s\<lparr>main := M_done\<rparr>)"
    using mutex_inv_main_move [OF inv, of M_done] m by simp
  moreover have "mutex_inv (destroy_threadpool s) = mutex_inv (s\<lparr>main := M_done\<rparr>)"
    by (intro mutex_inv_cong) (simp_all add: destroy_threadpool_def)
  ultimately show ?thesis unfolding s' by simp
qed

lemma mutex_inv_create: "mutex_inv (create_threadpool s n)"
  unfolding mutex_inv_def
proof
  fix c
  show "(mutex (create_threadpool s n) = Some c) = holds c (create_threadpool s n)"
    by (cases c) (simp_all add: create_threadpool_def)
qed

lemma mutex_inv_run:
  "run es s = Some s' \<Longrightarrow> mutex_inv s \<Longrightarrow> mutex_inv s'"
proof (induction es arbitrary: s)
  case Nil
  then show ?case by simp
next
  case (Cons e es)
  then show ?case by (auto split: option.splits dest: mutex_inv_step)
qed

subsection \<open>Runs\<close>

lemma num_threads_run: "run es s = Some s' \<Longrightarrow> num_threads s' = num_threads s"
proof (induction es arbitrary: s)
  case Nil
  then show ?case by simp
next
  case (Cons e es)
  from Cons.prems obtain s1 where s1: "step e s = Some s1" and r: "run es s1 = Some s'"
    by (auto split: option.splits)
  from effect_step [OF s1] Cons.IH [OF r] show ?case by (simp add: effect_def)
qed

lemma count_inv_bound:
  assumes "count_inv s"
  shows "unat (waiting_threads s) \<le> unat (num_threads s)"
proof (cases "main s = M_done")
  case True
  with assms show ?thesis unfolding count_inv_def by simp
next
  case False
  with assms have "unat (waiting_threads s) = length (filter failed (workers s))"
    and "length (workers s) = unat (num_threads s)" unfolding count_inv_def by auto
  then show ?thesis using length_filter_le [of failed "workers s"] by simp
qed


lemma activations_none: "activations es s = 0"
proof (induction es arbitrary: s)
  case Nil
  then show ?case by simp
next
  case (Cons e es)
  show ?case
  proof (cases "step e s")
    case None
    then show ?thesis by simp
  next
    case (Some s1)
    from effect_step [OF Some] have "active s1 = active s \<or> active s1 = 0"
      by (simp add: effect_def)
    with Some Cons.IH [of s1] show ?thesis by auto
  qed
qed

lemma inactive_stays:
  "run es s = Some s' \<Longrightarrow> active s \<noteq> 1 \<Longrightarrow> active s' \<noteq> 1"
proof (induction es arbitrary: s)
  case Nil
  then show ?case by simp
next
  case (Cons e es)
  from Cons.prems obtain s1 where s1: "step e s = Some s1" and r: "run es s1 = Some s'"
    by (auto split: option.splits)
  from effect_step [OF s1] Cons.prems(2) have "active s1 \<noteq> 1"
    by (auto simp: effect_def)
  from Cons.IH [OF r this] show ?case .
qed

lemma deactivations_run:
  "run es s = Some s' \<Longrightarrow>
   deactivations es s = (if active s = 1 \<and> active s' \<noteq> 1 then 1 else 0)"
proof (induction es arbitrary: s)
  case Nil
  then show ?case by simp
next
  case (Cons e es)
  from Cons.prems obtain s1 where s1: "step e s = Some s1" and r: "run es s1 = Some s'"
    by (auto split: option.splits)
  from effect_step [OF s1] have a: "active s1 = active s \<or> active s1 = 0"
    by (simp add: effect_def)
  from a s1 Cons.IH [OF r] inactive_stays [OF r] show ?case by auto
qed

lemma count_inv_done:
  assumes "count_inv s"
    "main s = M_done \<or> (workers s \<noteq> [] \<and> (\<forall>p \<in> set (workers s). p = Exited))"
  shows "active s = 0"
proof -
  have "(\<forall>p \<in> set (workers s). p = Exited) \<Longrightarrow> \<forall>j < length (workers s). checked (workers s ! j)"
    by (auto simp: all_set_conv_all_nth)
  with assms show ?thesis unfolding count_inv_def by blast
qed


lemma collect_queue:
  "run es s = Some s' \<Longrightarrow> collect removed es s @ queue s' = queue s @ collect added es s"
proof (induction es arbitrary: s)
  case Nil
  then show ?case by simp
next
  case (Cons e es)
  from Cons.prems obtain s1 where s1: "step e s = Some s1" and r: "run es s1 = Some s'"
    by (auto split: option.splits)
  from effect_step [OF s1] have "removed e s @ queue s1 = queue s @ added e s"
    by (simp add: effect_def)
  with Cons.IH [OF r] s1 show ?case by (simp flip: append_assoc) (simp)
qed

subsection \<open>The queue of a stopped pool\<close>

lemma removed_other:
  "\<not> (\<exists>i. e = Stmt (Worker i) \<and> i < length (workers s) \<and> workers s ! i = Deq_body) \<Longrightarrow>
   e \<noteq> Destroy \<Longrightarrow> removed e s = []"
  by (cases "(e, s)" rule: removed.cases) auto

lemma waiting_worker:
  assumes "worker_stmt i p s = Some s'" "p \<noteq> Deq_body"
  shows "waiting_threads s' = waiting_threads s \<and> main s' = main s"
proof (cases "(i, p, s)" rule: worker_stmt.cases)
  case (6 i' s0)
  with assms termination_check_effect [of i s] show ?thesis by auto
next
  case (11 i' r q t s0)
  with assms show ?thesis
    by (cases q) (auto simp: setw_def split: option.splits if_splits)
qed (use assms in \<open>auto simp: setw_def split: if_splits\<close>)

lemma waiting_step:
  assumes st: "step e s = Some s'"
    and nd: "\<not> (\<exists>i. e = Stmt (Worker i) \<and> i < length (workers s) \<and> workers s ! i = Deq_body)"
    and ne: "e \<noteq> Destroy"
  shows "waiting_threads s' = waiting_threads s \<and> (main s' = M_done \<longrightarrow> main s = M_done)"
proof (cases e)
  case (Stmt c)
  show ?thesis
  proof (cases c)
    case Main
    with st Stmt show ?thesis
      by (cases "(main s, s)" rule: main_stmt.cases)
         (auto split: option.splits dest: enqueue_stmt_effect)
  next
    case (Worker i)
    with st Stmt nd waiting_worker [of i "workers s ! i" s s'] show ?thesis
      by (auto split: if_splits)
  qed
next
  case (Call c t)
  with st show ?thesis
    by (cases c) (auto simp: set_call_shared setw_def split: if_splits wpc.splits)
next
  case (Signal c j)
  with st obtain t s1 where sg: "cond_signal j s = Some s1"
    and s': "s' = set_call c (Some (E_unlock, t)) s1"
    by (auto split: option.splits epc.splits)
  from cond_signal_frame [OF sg] show ?thesis
    unfolding s' by (cases c) (auto simp: set_call_shared setw_def split: wpc.splits)
next
  case (Return i)
  with st show ?thesis by (auto simp: setw_def split: if_splits)
next
  case (Spurious i)
  with st cond_signal_frame [of "Some i" s s'] show ?thesis by simp
next
  case Join
  with st show ?thesis by (auto split: if_splits)
next
  case Destroy
  with ne show ?thesis by simp
qed

lemma added_running:
  assumes "count_inv s" "added e s \<noteq> []"
  shows "main s \<noteq> M_done"
proof (cases e)
  case (Stmt c)
  show ?thesis
  proof (cases c)
    case Main
    with assms(2) Stmt show ?thesis by (auto split: mpc.splits option.splits)
  next
    case (Worker i)
    with assms(2) Stmt have i: "i < length (workers s)" and "workers s ! i \<noteq> Exited"
      by (auto split: if_splits option.splits wpc.splits)
    with assms(1) show ?thesis unfolding count_inv_def by auto
  qed
qed (use assms in auto)

lemma queue_inv_step:
  assumes ci: "count_inv s" and qi: "queue_inv s" and st: "step e s = Some s'"
    and nl: "\<not> (added e s \<noteq> [] \<and> waiting_threads s = num_threads s)"
  shows "queue_inv s'"
proof -
  from effect_step [OF st] have n: "num_threads s' = num_threads s"
    and q: "removed e s @ queue s' = queue s @ added e s" by (simp_all add: effect_def)
  consider (deq) i where "e = Stmt (Worker i)" "i < length (workers s)" "workers s ! i = Deq_body"
    | (destroy) "e = Destroy"
    | (other) "\<not> (\<exists>i. e = Stmt (Worker i) \<and> i < length (workers s) \<and> workers s ! i = Deq_body)"
        "e \<noteq> Destroy"
    by blast
  then show ?thesis
  proof cases
    case deq
    then have "\<not> failed (workers s ! i)" by simp
    from count_inv_running [OF ci deq(2) this]
    have act: "active s = 1" and m: "\<exists>c. main s = M_run c"
      and lt: "unat (waiting_threads s) < unat (num_threads s)" by auto
    obtain r s1 where d: "dequeue_task s = (r, s1)" by (cases "dequeue_task s")
    with st deq have s': "s' = setw i (Deq_unlock r) s1" by simp
    show ?thesis
    proof (cases "queue s = []")
      case True
      with d s' show ?thesis
        by (auto simp: queue_inv_def setw_def dequeue_task_def take_head_def incr_waiting_def)
    next
      case False
      with d act have "waiting_threads s1 = waiting_threads s" "main s1 = main s"
        by (auto simp: dequeue_task_def take_head_def incr_waiting_def)
      with s' m lt n show ?thesis
        by (auto simp: queue_inv_def setw_def)
    qed
  next
    case destroy
    with st show ?thesis
      by (auto simp: queue_inv_def destroy_threadpool_def split: if_splits)
  next
    case other
    from waiting_step [OF st other]
    have w: "waiting_threads s' = waiting_threads s" and m: "main s' = M_done \<longrightarrow> main s = M_done"
      by simp_all
    from removed_other [OF other] q have q': "queue s' = queue s @ added e s" by simp
    show ?thesis unfolding queue_inv_def
    proof
      assume "waiting_threads s' = num_threads s' \<or> main s' = M_done"
      with w m n have a: "waiting_threads s = num_threads s \<or> main s = M_done" by auto
      with qi have "queue s = []" by (simp add: queue_inv_def)
      moreover have "added e s = []" using a nl added_running [OF ci, of e] by auto
      ultimately show "queue s' = []" using q' by simp
    qed
  qed
qed

lemma queue_inv_run:
  "run es s = Some s' \<Longrightarrow> no_late_add es s \<Longrightarrow> count_inv s \<Longrightarrow> queue_inv s \<Longrightarrow>
   queue_inv s'"
proof (induction es arbitrary: s)
  case Nil
  then show ?case by simp
next
  case (Cons e es)
  from Cons.prems(1) obtain s1 where s1: "step e s = Some s1" and r: "run es s1 = Some s'"
    by (auto split: option.splits)
  from Cons.prems(2) s1 have nl: "\<not> (added e s \<noteq> [] \<and> waiting_threads s = num_threads s)"
    and rest: "no_late_add es s1" by simp_all
  from queue_inv_step [OF Cons.prems(3,4) s1 nl] have "queue_inv s1" .
  from Cons.IH [OF r rest count_inv_step [OF Cons.prems(3) s1] this] show ?case .
qed

text \<open>
  Where a task can be left behind: along a run in which no task is appended while the
  waiting counter equals the number of workers, the queue of a pool whose \<open>active\<close> is
  not 1 is empty.
\<close>

lemma inactive_queue_empty:
  assumes r: "run es (create_threadpool s0 n) = Some s"
    and nl: "no_late_add es (create_threadpool s0 n)"
    and a: "active s \<noteq> 1"
  shows "queue s = []"
proof -
  have q0: "queue_inv (create_threadpool s0 n)"
    by (simp add: queue_inv_def create_threadpool_def)
  from count_inv_run [OF r count_inv_create] have ci: "count_inv s" .
  from queue_inv_run [OF r nl count_inv_create q0] have qi: "queue_inv s" .
  show ?thesis
  proof (cases "main s = M_done")
    case True
    with qi show ?thesis by (simp add: queue_inv_def)
  next
    case False
    from ci a have "\<forall>j < length (workers s). failed (workers s ! j)"
      unfolding count_inv_def by auto
    from count_inv_full [OF ci False this] qi show ?thesis by (simp add: queue_inv_def)
  qed
qed

subsection \<open>The marker\<close>




subsection \<open>Blocked workers\<close>




subsection \<open>Pools of at most one worker\<close>











section \<open>Properties of the pool\<close>

lemma replicate_two: "replicate 2 p = [p, p]"
  by (simp add: numeral_2_eq_2)

lemmas pool_eval =
  create_threadpool_def boot_def setw_def dequeue_task_def take_head_def incr_waiting_def
  termination_check_def destroy_threadpool_def replicate_two

subsection \<open>Termination detection\<close>

text \<open>
  C1, at its failing run. With one worker, task 7 is submitted after the worker's
  \<open>dequeue_task\<close> has returned \<open>NULL\<close> and before the worker tests
  \<open>waiting_threads == tp->num_threads\<close> (line 98): when \<open>enqueue_task\<close> has returned the
  pool is active and the worker has not reached the test. The worker then stops the
  pool and exits; after the join task 7 is still in the queue and no action was started.
\<close>

theorem late_submission_dropped:
  "run (take 10 late_submission) (create_threadpool boot 1) =
     Some \<lparr>waiting_threads = 1, start = 1, queue = [7], active = 1, num_threads = 1,
           mutex = None, workers = [Check_lock], main = M_run None\<rparr> \<and>
   run late_submission (create_threadpool boot 1) =
     Some \<lparr>waiting_threads = 1, start = 1, queue = [7], active = 0, num_threads = 1,
           mutex = None, workers = [Exited], main = M_joined\<rparr> \<and>
   additions late_submission (create_threadpool boot 1) = [7] \<and>
   executions late_submission (create_threadpool boot 1) = []"
  by (simp add: late_submission_def additions_def executions_def pool_eval)



text \<open>
  C4, at its failing run. Worker 0 blocks in \<open>pthread_cond_wait\<close>; the main thread
  appends task 5 and its signal wakes worker 0. The worker takes the mutex again, unlocks
  and leaves the loop by the \<open>break\<close> of line 106: it has exited while the pool is active
  and the task it was woken for is in the queue; it called \<open>dequeue_task\<close> once only.
\<close>

theorem woken_worker_exits:
  "run (take 8 woken_worker) (create_threadpool boot 2) =
     Some \<lparr>waiting_threads = 1, start = 1, queue = [], active = 1, num_threads = 2,
           mutex = None, workers = [Cond_blocked, Loop_head],
           main = M_run (Some (E_lock, 5))\<rparr> \<and>
   run (take 11 woken_worker) (create_threadpool boot 2) =
     Some \<lparr>waiting_threads = 1, start = 1, queue = [5], active = 1, num_threads = 2,
           mutex = Some Main, workers = [Cond_reacquire, Loop_head],
           main = M_run (Some (E_unlock, 5))\<rparr> \<and>
   run woken_worker (create_threadpool boot 2) =
     Some \<lparr>waiting_threads = 1, start = 1, queue = [5], active = 1, num_threads = 2,
           mutex = None, workers = [Exited, Loop_head], main = M_run None\<rparr> \<and>
   removals woken_worker (create_threadpool boot 2) = []"
  by (simp add: woken_worker_def removals_def pool_eval)



subsection \<open>The queue\<close>

text \<open>
  C3. The body of \<open>dequeue_task\<close> first increments the waiting counter; then, with a
  non-empty queue and an active pool, it returns the head, removes it and brings the
  counter back to its prior value; in every other case it returns no task, leaves the
  queue as it was and leaves the counter incremented (modulo \<open>2 ^ 32\<close>).
\<close>

theorem dequeue_task_spec:
  "dequeue_task s = take_head (incr_waiting s) \<and>
   waiting_threads (incr_waiting s) = waiting_threads s + 1 \<and>
   queue (incr_waiting s) = queue s \<and> active (incr_waiting s) = active s \<and>
   (if queue s \<noteq> [] \<and> active s = 1
    then fst (dequeue_task s) = Some (hd (queue s)) \<and>
         queue (snd (dequeue_task s)) = tl (queue s) \<and>
         waiting_threads (snd (dequeue_task s)) = waiting_threads s
    else fst (dequeue_task s) = None \<and>
         queue (snd (dequeue_task s)) = queue s \<and>
         waiting_threads (snd (dequeue_task s)) = waiting_threads s + 1)"
  by (simp add: dequeue_task_def take_head_def incr_waiting_def)

theorem dequeue_task_spec_witness:
  "fst (dequeue_task ((create_threadpool boot 2)\<lparr>queue := [7, 8]\<rparr>)) = Some 7 \<and>
   queue (snd (dequeue_task ((create_threadpool boot 2)\<lparr>queue := [7, 8]\<rparr>))) = [8] \<and>
   waiting_threads (snd (dequeue_task ((create_threadpool boot 2)\<lparr>queue := [7, 8]\<rparr>))) = 0 \<and>
   fst (dequeue_task (create_threadpool boot 2)) = None \<and>
   waiting_threads (snd (dequeue_task (create_threadpool boot 2))) = 1"
  using dequeue_task_spec [of "(create_threadpool boot 2)\<lparr>queue := [7, 8]\<rparr>"]
    dequeue_task_spec [of "create_threadpool boot 2"]
  by (simp add: create_threadpool_def boot_def take_head_def incr_waiting_def)

text \<open>
  C8. The queue is first-in first-out: line 56 appends at the tail, \<open>dequeue_task\<close>
  returns and removes the head, and along every run of a pool the tasks taken out of the
  queue, in the order they were taken, followed by the tasks still queued, are the tasks
  appended, in the order they were appended. Two tasks one thread submits one after the
  other are appended in that order, so they leave the queue in that order.
\<close>

theorem queue_fifo:
  assumes "run es (create_threadpool s0 n) = Some s"
  shows "removals es (create_threadpool s0 n) @ queue s = additions es (create_threadpool s0 n) \<and>
         enqueue_stmt c E_add t s = Some (Some E_signal, s\<lparr>queue := queue s @ [t]\<rparr>) \<and>
         (queue s \<noteq> [] \<and> active s = 1 \<longrightarrow>
            fst (dequeue_task s) = Some (hd (queue s)) \<and>
            queue (snd (dequeue_task s)) = tl (queue s))"
  using collect_queue [OF assms]
  by (simp add: removals_def additions_def create_threadpool_def dequeue_task_def
      take_head_def incr_waiting_def)

theorem queue_fifo_witness:
  "removals two_tasks (create_threadpool boot 1) = [5] \<and>
   map_option queue (run two_tasks (create_threadpool boot 1)) = Some [6] \<and>
   additions two_tasks (create_threadpool boot 1) = [5, 6]"
proof -
  have r: "run two_tasks (create_threadpool boot 1) =
     Some \<lparr>waiting_threads = 0, start = 1, queue = [6], active = 1, num_threads = 1,
           mutex = Some (Worker 0), workers = [Deq_unlock (Some 5)], main = M_run None\<rparr>"
    by (simp add: two_tasks_def pool_eval)
  have a: "additions two_tasks (create_threadpool boot 1) = [5, 6]"
    by (simp add: two_tasks_def additions_def pool_eval)
  from queue_fifo [OF r] r a show ?thesis by simp
qed

text \<open>
  C5, at its failing run. With two workers, task 9 is appended while \<open>active\<close> is 1: when
  \<open>enqueue_task\<close> has returned the pool is active and holds the task. Worker 1, whose
  \<open>dequeue_task\<close> had returned \<open>NULL\<close> before, then finds the waiting counter equal to the
  worker count and clears \<open>active\<close> without looking at the queue: the pool is stopped with
  a non-empty queue, and nothing was appended after it stopped.
\<close>

theorem stopped_pool_keeps_task:
  "run (take 17 stop_races_submission) (create_threadpool boot 2) =
     Some \<lparr>waiting_threads = 2, start = 1, queue = [9], active = 1, num_threads = 2,
           mutex = None, workers = [Exited, Check_lock], main = M_run None\<rparr> \<and>
   run stop_races_submission (create_threadpool boot 2) =
     Some \<lparr>waiting_threads = 2, start = 1, queue = [9], active = 0, num_threads = 2,
           mutex = None, workers = [Exited, Exited], main = M_joined\<rparr> \<and>
   additions stop_races_submission (create_threadpool boot 2) = [9] \<and>
   inactive_additions stop_races_submission (create_threadpool boot 2) = []"
  by (simp add: stop_races_submission_def additions_def inactive_additions_def pool_eval)

subsection \<open>Pool state\<close>

text \<open>
  C6. Along every run of a pool from its creation, \<open>active\<close> never goes from a value other
  than 1 to 1, it leaves 1 at most once, it has left 1 exactly when it is 0, and it has
  left 1 exactly once when the run is complete: when the pool has been destroyed, or when
  the pool has workers and all of them have exited.
\<close>

theorem active_cleared_once:
  assumes "run es (create_threadpool s0 n) = Some s"
  shows "activations es (create_threadpool s0 n) = 0 \<and>
         deactivations es (create_threadpool s0 n) \<le> 1 \<and>
         (deactivations es (create_threadpool s0 n) = 1) = (active s = 0) \<and>
         (main s = M_done \<or> (workers s \<noteq> [] \<and> (\<forall>p \<in> set (workers s). p = Exited))
            \<longrightarrow> deactivations es (create_threadpool s0 n) = 1)"
proof -
  from count_inv_run [OF assms count_inv_create] have inv: "count_inv s" .
  then have a: "active s = 1 \<or> active s = 0" unfolding count_inv_def by simp
  have d: "deactivations es (create_threadpool s0 n) = (if active s \<noteq> 1 then 1 else 0)"
    using deactivations_run [OF assms] by (simp add: create_threadpool_def)
  from a d count_inv_done [OF inv] activations_none [of es "create_threadpool s0 n"]
  show ?thesis by auto
qed

theorem active_cleared_once_witness:
  "deactivations whole_life (create_threadpool boot 1) = 1 \<and>
   activations whole_life (create_threadpool boot 1) = 0 \<and>
   map_option main (run whole_life (create_threadpool boot 1)) = Some M_done"
proof -
  have r: "run whole_life (create_threadpool boot 1) =
     Some \<lparr>waiting_threads = 0, start = 1, queue = [], active = 0, num_threads = 1,
           mutex = None, workers = [Exited], main = M_done\<rparr>"
    by (simp add: whole_life_def pool_eval)
  from active_cleared_once [OF r] r show ?thesis by simp
qed

text \<open>
  C7. In every state a pool reaches from its creation, so at every release of the mutex,
  the waiting counter is at least 0 and at most the number of workers the pool was
  created with.
\<close>

theorem waiting_threads_in_range:
  assumes "run es (create_threadpool s0 n) = Some s"
  shows "0 \<le> uint (waiting_threads s) \<and>
         unat (waiting_threads s) \<le> unat (num_threads s) \<and> num_threads s = n"
proof -
  from count_inv_run [OF assms count_inv_create] have "count_inv s" .
  from count_inv_bound [OF this] num_threads_run [OF assms]
  show ?thesis by (simp add: create_threadpool_def)
qed

theorem waiting_threads_in_range_witness:
  "map_option (\<lambda>s. unat (waiting_threads s)) (run both_idle (create_threadpool boot 2))
     = Some 2 \<and>
   map_option (\<lambda>s. unat (num_threads s)) (run both_idle (create_threadpool boot 2))
     = Some 2"
proof -
  have r: "run both_idle (create_threadpool boot 2) =
     Some \<lparr>waiting_threads = 2, start = 0, queue = [], active = 1, num_threads = 2,
           mutex = None, workers = [Check_lock, Check_lock], main = M_run None\<rparr>"
    by (simp add: both_idle_def pool_eval)
  from waiting_threads_in_range [OF r] r show ?thesis by simp
qed

subsection \<open>The mutex and the marker\<close>

text \<open>
  C9 as stated fails: line 50 of \<open>enqueue_task\<close> writes \<open>start\<close> before line 55 takes
  the mutex. Here the main thread has entered \<open>enqueue_task\<close>; its next statement
  changes \<open>start\<close> from 0 to 1 while the mutex is free.
\<close>

theorem start_written_unlocked:
  "run [Call Main 7] (create_threadpool boot 1) =
     Some \<lparr>waiting_threads = 0, start = 0, queue = [], active = 1, num_threads = 1,
           mutex = None, workers = [Loop_head], main = M_run (Some (E_start, 7))\<rparr> \<and>
   step (Stmt Main)
     \<lparr>waiting_threads = 0, start = 0, queue = [], active = 1, num_threads = 1,
      mutex = None, workers = [Loop_head], main = M_run (Some (E_start, 7))\<rparr> =
     Some \<lparr>waiting_threads = 0, start = 1, queue = [], active = 1, num_threads = 1,
           mutex = None, workers = [Loop_head], main = M_run (Some (E_lock, 7))\<rparr>"
  by (simp add: pool_eval)

text \<open>
  C9, amended. In every state a pool reaches from its creation, a step of \<open>enqueue_task\<close>,
  \<open>dequeue_task\<close> or \<open>thread_loop_function\<close> that changes the queue, \<open>active\<close> or the
  waiting counter is taken by the thread that holds the mutex; a step that changes
  \<open>start\<close> is taken by a thread that does not hold it; and \<open>destroy_threadpool\<close>, which
  writes \<open>active\<close> and the waiting counter and purges the queue without locking, runs
  when nobody holds the mutex.
\<close>

theorem writes_under_mutex:
  assumes r: "run es (create_threadpool s0 n) = Some s" and st: "step e s = Some s'"
  shows "(e \<noteq> Destroy \<and>
          (queue s' \<noteq> queue s \<or> active s' \<noteq> active s \<or>
           waiting_threads s' \<noteq> waiting_threads s) \<longrightarrow> mutex s = Some (actor e)) \<and>
         (start s' \<noteq> start s \<longrightarrow> mutex s \<noteq> Some (actor e)) \<and>
         (e = Destroy \<longrightarrow> mutex s = None)"
proof -
  from mutex_inv_run [OF r mutex_inv_create] have mi: "\<And>c. (mutex s = Some c) = holds c s"
    unfolding mutex_inv_def by simp
  from count_inv_run [OF r count_inv_create] have ci: "count_inv s" .
  have d: "e = Destroy \<Longrightarrow> mutex s = None"
  proof -
    assume e: "e = Destroy"
    with st have m: "main s = M_joined" by (simp split: if_splits)
    with ci have ex: "\<forall>j < length (workers s). workers s ! j = Exited"
      unfolding count_inv_def by simp
    have "\<And>c. \<not> holds c s"
    proof -
      fix c show "\<not> holds c s" using m ex by (cases c) auto
    qed
    with mi show ?thesis by (cases "mutex s") auto
  qed
  from effect_step [OF st] mi d show ?thesis unfolding effect_def by blast
qed

theorem writes_under_mutex_witness:
  "map_option mutex (run [Call Main 7, Stmt Main, Stmt Main] (create_threadpool boot 1))
     = Some (Some (actor (Stmt Main))) \<and>
   map_option queue (run [Call Main 7, Stmt Main, Stmt Main] (create_threadpool boot 1))
     = Some [] \<and>
   map_option queue (run [Call Main 7, Stmt Main, Stmt Main, Stmt Main]
     (create_threadpool boot 1)) = Some [7]"
proof -
  have r: "run [Call Main 7, Stmt Main, Stmt Main] (create_threadpool boot 1) =
     Some \<lparr>waiting_threads = 0, start = 1, queue = [], active = 1, num_threads = 1,
           mutex = Some Main, workers = [Loop_head], main = M_run (Some (E_add, 7))\<rparr>"
    by (simp add: pool_eval)
  have s: "step (Stmt Main)
     \<lparr>waiting_threads = 0, start = 1, queue = [], active = 1, num_threads = 1,
      mutex = Some Main, workers = [Loop_head], main = M_run (Some (E_add, 7))\<rparr> =
     Some \<lparr>waiting_threads = 0, start = 1, queue = [7], active = 1, num_threads = 1,
           mutex = Some Main, workers = [Loop_head], main = M_run (Some (E_signal, 7))\<rparr>"
    by simp
  from writes_under_mutex [OF r s] r s show ?thesis by (simp add: pool_eval)
qed




end
